theory Spec2Isabelle
  imports Main
begin

section \<open>Python strings\<close>

text \<open>
  Transcripts and the document are Python \<open>str\<close> values. They are modelled as
  \<open>string\<close> and the model is exact on ASCII text: the character classes and case
  mappings below are Python's on code points below 128, and every other
  character is taken as a caseless character that is neither whitespace nor
  punctuation.
\<close>

definition newline :: char where
  "newline = CHR 0x0A"

text \<open>The characters \<open>str.strip()\<close> and \<open>str.split()\<close> treat as whitespace
  (\<open>str.isspace\<close>): tab, line feed, vertical tab, form feed, carriage return,
  the four separators 0x1C to 0x1F, and the space.\<close>

definition whitespace :: string where
  "whitespace = [CHR 0x09, CHR 0x0A, CHR 0x0B, CHR 0x0C, CHR 0x0D,
                 CHR 0x1C, CHR 0x1D, CHR 0x1E, CHR 0x1F, CHR 0x20]"

definition isspace :: "char \<Rightarrow> bool" where
  "isspace c = (c \<in> set whitespace)"

text \<open>\<open>string.punctuation\<close>: the 32 ASCII punctuation characters.\<close>

definition punctuation :: string where
  "punctuation = ''!'' @ [CHR 0x22] @ ''#$%&'' @ [CHR 0x27] @ ''()*+,-./:;<=>?@[''
                 @ [CHR 0x5C] @ '']^_'' @ [CHR 0x60] @ ''{|}~''"

definition ascii_lowercase :: string where
  "ascii_lowercase = ''abcdefghijklmnopqrstuvwxyz''"

definition ascii_uppercase :: string where
  "ascii_uppercase = ''ABCDEFGHIJKLMNOPQRSTUVWXYZ''"

definition lower_char :: "char \<Rightarrow> char" where
  "lower_char c = (case map_of (zip ascii_uppercase ascii_lowercase) c of
                     Some l \<Rightarrow> l | None \<Rightarrow> c)"

definition upper_char :: "char \<Rightarrow> char" where
  "upper_char c = (case map_of (zip ascii_lowercase ascii_uppercase) c of
                     Some u \<Rightarrow> u | None \<Rightarrow> c)"

text \<open>\<open>text.lower()\<close> and \<open>text.upper()\<close>.\<close>

definition lower :: "string \<Rightarrow> string" where
  "lower text = map lower_char text"

definition upper :: "string \<Rightarrow> string" where
  "upper text = map upper_char text"

text \<open>\<open>text.strip()\<close>: leading and trailing whitespace removed.\<close>

definition strip :: "string \<Rightarrow> string" where
  "strip text = rev (dropWhile isspace (rev (dropWhile isspace text)))"

text \<open>\<open>text.translate(str.maketrans('', '', string.punctuation))\<close>: every
  punctuation character deleted, all others kept.\<close>

definition translate_punctuation :: "string \<Rightarrow> string" where
  "translate_punctuation text = filter (\<lambda>c. c \<notin> set punctuation) text"

text \<open>\<open>text.split()\<close> with no separator: skip a run of whitespace, take the
  characters up to the next whitespace as one word, and go on with the rest.\<close>

function split :: "string \<Rightarrow> string list" where
  "split text =
     (case dropWhile isspace text of
        [] \<Rightarrow> []
      | c # cs \<Rightarrow> takeWhile (\<lambda>x. \<not> isspace x) (c # cs)
                 # split (dropWhile (\<lambda>x. \<not> isspace x) (c # cs)))"
  by pat_completeness auto
termination
proof (relation "measure length")
  show "wf (measure (length :: string \<Rightarrow> nat))" by simp
next
  fix t :: string and c cs
  assume dw: "dropWhile isspace t = c # cs"
  have "\<not> isspace c"
    using dw hd_dropWhile [of isspace t] by auto
  then have "length (dropWhile (\<lambda>x. \<not> isspace x) (c # cs)) \<le> length cs"
    using length_dropWhile_le [of "\<lambda>x. \<not> isspace x" cs] by simp
  moreover have "length (c # cs) \<le> length t"
    using dw length_dropWhile_le [of isspace t] by simp
  ultimately show "(dropWhile (\<lambda>x. \<not> isspace x) (c # cs), t) \<in> measure length"
    by simp
qed

declare split.simps [simp del]

text \<open>\<open>sep.join(words)\<close>.\<close>

fun join :: "string \<Rightarrow> string list \<Rightarrow> string" where
  "join sep [] = []"
| "join sep [w] = w"
| "join sep (w # ws) = w @ sep @ join sep ws"

text \<open>\<open>str(n)\<close> for a length, as the f-string \<open>f"chunk_{len(...)}"\<close> renders it.\<close>

definition digit_char :: "nat \<Rightarrow> char" where
  "digit_char d = ''0123456789'' ! d"

function str_nat :: "nat \<Rightarrow> string" where
  "str_nat n = (if n < 10 then [digit_char n]
                else str_nat (n div 10) @ [digit_char (n mod 10)])"
  by pat_completeness auto
termination
  by (relation "measure id") auto

declare str_nat.simps [simp del]

section \<open>The Tk text widget\<close>

text \<open>
  \<open>self.text_area\<close> is a Tk text widget. Its state is the text it holds, without
  the final newline that Tk keeps after the last character (so \<open>chars\<close> is what
  \<open>get("1.0", "end-1c")\<close> returns), and its tag table: for each tag name the
  character ranges that carry it, as offsets into \<open>chars\<close>.
\<close>

record text_widget =
  chars :: string
  tags :: "(string \<times> (nat \<times> nat) list) list"

text \<open>\<open>get("1.0", "end-1c")\<close> and \<open>get("1.0", tk.END)\<close>.\<close>

definition get_end_1c :: "text_widget \<Rightarrow> string" where
  "get_end_1c w = chars w"

definition get_END :: "text_widget \<Rightarrow> string" where
  "get_END w = chars w @ [newline]"

text \<open>\<open>insert(tk.END, s)\<close> with no tag argument: the text goes in front of the
  final newline, and no tag is put on it.\<close>

definition insert_END :: "string \<Rightarrow> text_widget \<Rightarrow> text_widget" where
  "insert_END s w = w\<lparr>chars := chars w @ s\<rparr>"

text \<open>Where an offset lands once the characters from \<open>a\<close> up to \<open>b\<close> are gone.\<close>

definition shift_offset :: "nat \<Rightarrow> nat \<Rightarrow> nat \<Rightarrow> nat" where
  "shift_offset a b p = (if p \<le> a then p else if p \<le> b then a else p - (b - a))"

text \<open>\<open>delete(a, b)\<close>: the characters from \<open>a\<close> up to \<open>b\<close> are removed, tag
  ranges move with the text and a range left empty disappears. Nothing happens
  when the range is empty.\<close>

definition delete :: "nat \<Rightarrow> nat \<Rightarrow> text_widget \<Rightarrow> text_widget" where
  "delete a b w =
     (if a < b then
        \<lparr>chars = take a (chars w) @ drop b (chars w),
         tags = map (\<lambda>(t, rs). (t, filter (\<lambda>(x, y). x < y)
                  (map (\<lambda>(x, y). (shift_offset a b x, shift_offset a b y)) rs)))
                  (tags w)\<rparr>
      else w)"

text \<open>\<open>delete("1.0", tk.END)\<close>: all the text goes, and with it every tag range.\<close>

definition delete_all :: "text_widget \<Rightarrow> text_widget" where
  "delete_all w = \<lparr>chars = [], tags = map (\<lambda>(t, rs). (t, [])) (tags w)\<rparr>"

text \<open>\<open>tag_ranges(tag)\<close>: the ranges of the tag, none for a tag the widget does
  not know.\<close>

definition tag_ranges :: "text_widget \<Rightarrow> string \<Rightarrow> (nat \<times> nat) list" where
  "tag_ranges w tag = (case map_of (tags w) tag of None \<Rightarrow> [] | Some rs \<Rightarrow> rs)"

definition tag_delete :: "string \<Rightarrow> text_widget \<Rightarrow> text_widget" where
  "tag_delete tag w = w\<lparr>tags := filter (\<lambda>(t, rs). t \<noteq> tag) (tags w)\<rparr>"

section \<open>The application state\<close>

text \<open>
  The fields of \<open>MedicalDictationApp\<close> that dictation reads and writes: the text
  area, the list \<open>appended_chunks\<close> of tag names (one per literal insertion, the
  newest last), the flag \<open>capitalize_next\<close>, the text of the status label and
  the clipboard. The recorded audio (\<open>audio_segments\<close>, read only when the text
  is saved) is left out.
\<close>

record app =
  text_area :: text_widget
  appended_chunks :: "string list"
  capitalize_next :: bool
  status_label :: string
  clipboard :: string

text \<open>The state \<open>__init__\<close> leaves: an empty text area with no tags, no chunks,
  the flag off and the status label reading \<open>Status: Idle\<close> (an OpenAI key
  being configured; without one the label starts with a warning instead).\<close>

definition init :: app where
  "init = \<lparr>text_area = \<lparr>chars = [], tags = []\<rparr>, appended_chunks = [],
           capitalize_next = False, status_label = ''Status: Idle'',
           clipboard = []\<rparr>"

definition update_status :: "string \<Rightarrow> app \<Rightarrow> app" where
  "update_status message s = s\<lparr>status_label := ''Status: '' @ message\<rparr>"

text \<open>\<open>new_session\<close> and \<open>clear_text\<close> ask the user first; \<open>askyesno\<close> is the
  answer given in the dialog.\<close>

definition new_session :: "bool \<Rightarrow> app \<Rightarrow> app" where
  "new_session askyesno s =
     (if askyesno then
        s\<lparr>text_area := delete_all (text_area s), appended_chunks := []\<rparr>
      else s)"

definition clear_text :: "bool \<Rightarrow> app \<Rightarrow> app" where
  "clear_text askyesno s =
     (if askyesno then
        s\<lparr>text_area := delete_all (text_area s), appended_chunks := []\<rparr>
      else s)"

text \<open>\<open>save_text\<close> writes files and shows dialogs; it changes none of the fields
  above.\<close>

definition save_text :: "app \<Rightarrow> app" where
  "save_text s = s"

definition copy_text :: "app \<Rightarrow> app" where
  "copy_text s = update_status ''Text copied to clipboard.''
                   (s\<lparr>clipboard := get_END (text_area s)\<rparr>)"

definition append_text :: "string \<Rightarrow> app \<Rightarrow> app" where
  "append_text text s =
     (let current = get_end_1c (text_area s);
          cap = ((capitalize_next s \<or> current = [] \<or> last current \<in> set ''.!?'')
                 \<and> text \<noteq> []);
          text' = (if cap then upper [hd text] @ tl text else text);
          s1 = (if cap then s\<lparr>capitalize_next := False\<rparr> else s);
          s2 = s1\<lparr>text_area := insert_END
                  ((if current \<noteq> [] \<and> last current \<noteq> newline then '' '' else [])
                   @ text') (text_area s1)\<rparr>
      in s2\<lparr>appended_chunks := appended_chunks s2
               @ [''chunk_'' @ str_nat (length (appended_chunks s2))]\<rparr>)"

definition scratch_that :: "app \<Rightarrow> app" where
  "scratch_that s =
     (if appended_chunks s = [] then update_status ''Nothing to scratch.'' s
      else
        let tag = last (appended_chunks s);
            s1 = s\<lparr>appended_chunks := butlast (appended_chunks s)\<rparr>;
            ranges = tag_ranges (text_area s1) tag
        in if ranges \<noteq> [] then
             update_status ''Last added text removed.''
               (s1\<lparr>text_area := tag_delete tag
                     (delete (fst (hd ranges)) (snd (hd ranges)) (text_area s1))\<rparr>)
           else update_status ''No tagged text found.'' s1)"

definition delete_last_word :: "app \<Rightarrow> app" where
  "delete_last_word s =
     (let current = get_end_1c (text_area s)
      in if current \<noteq> [] then
           let words = split current
           in s\<lparr>text_area := insert_END (join '' '' (butlast words))
                                (delete_all (text_area s))\<rparr>
         else s)"

text \<open>The table \<open>commands\<close> of \<open>handle_recognized_text\<close>, in the order the source
  lists it: each phrase with what it does to the state. The first twelve
  entries insert a fixed token at the end of the text area.\<close>

definition insert_token :: "string \<Rightarrow> app \<Rightarrow> app" where
  "insert_token token s = s\<lparr>text_area := insert_END token (text_area s)\<rparr>"

definition commands :: "bool \<Rightarrow> (string \<times> (app \<Rightarrow> app)) list" where
  "commands askyesno =
     [(''new paragraph'', insert_token [newline, newline]),
      (''new line'', insert_token [newline]),
      (''full stop'', insert_token ''. ''),
      (''comma'', insert_token '', ''),
      (''question mark'', insert_token ''? ''),
      (''exclamation point'', insert_token ''! ''),
      (''semicolon'', insert_token ''; ''),
      (''colon'', insert_token '': ''),
      (''open quote'', insert_token [CHR 0x22]),
      (''close quote'', insert_token [CHR 0x22]),
      (''open parenthesis'', insert_token ''(''),
      (''close parenthesis'', insert_token '')''),
      (''delete last word'', delete_last_word),
      (''scratch that'', scratch_that),
      (''new dictation'', new_session askyesno),
      (''clear text'', clear_text askyesno),
      (''copy text'', copy_text),
      (''save text'', save_text)]"

definition handle_recognized_text :: "bool \<Rightarrow> string \<Rightarrow> app \<Rightarrow> app" where
  "handle_recognized_text askyesno text s =
     (if strip text = [] then s
      else
        let cleaned = translate_punctuation (strip (lower text))
        in case map_of (commands askyesno) cleaned of
             Some action \<Rightarrow> action s
           | None \<Rightarrow> append_text text s)"

section \<open>From the workers to the text area\<close>

text \<open>
  \<open>callback\<close> hands every captured phrase to the thread pool, and
  \<open>process_audio\<close> runs there. What the transcription attempt comes to is an
  \<open>outcome\<close>: a transcript, or one of the exceptions the source catches. The
  worker touches no dictation state itself: it ends by passing one call to
  \<open>self.after(0, ...)\<close>, which the Tk main loop runs later.
\<close>

datatype outcome =
  Transcript string
| UnknownValueError
| RequestError string
| OtherException string

datatype scheduled =
  Handle_recognized_text string
| Update_status string

fun process_audio :: "outcome \<Rightarrow> scheduled" where
  "process_audio (Transcript transcript) = Handle_recognized_text transcript"
| "process_audio UnknownValueError = Update_status ''Audio not understood''"
| "process_audio (RequestError e) = Update_status (''Request error: '' @ e)"
| "process_audio (OtherException e) = Update_status (''Error: '' @ e)"

fun run_scheduled :: "bool \<Rightarrow> scheduled \<Rightarrow> app \<Rightarrow> app" where
  "run_scheduled askyesno (Handle_recognized_text transcript) s =
     handle_recognized_text askyesno transcript s"
| "run_scheduled askyesno (Update_status message) s = update_status message s"

text \<open>
  Three commands stop in a modal dialog before they do anything:
  \<open>new_session\<close> and \<open>clear_text\<close> in \<open>messagebox.askyesno\<close>, \<open>save_text\<close> in a
  warning or in the file dialog. \<open>opens_dialog\<close> tells whether a scheduled
  call is one of them.
\<close>

definition dialog_commands :: "string list" where
  "dialog_commands = [''new dictation'', ''clear text'', ''save text'']"

fun opens_dialog :: "scheduled \<Rightarrow> bool" where
  "opens_dialog (Handle_recognized_text transcript) =
     (strip transcript \<noteq> [] \<and>
      translate_punctuation (strip (lower transcript)) \<in> set dialog_commands)"
| "opens_dialog (Update_status message) = False"

text \<open>
  The phrases are numbered in the order \<open>callback\<close> submits them; \<open>chunks ! k\<close>
  is the outcome of phrase \<open>k\<close>. Two things happen, in any interleaving: a worker
  finishes a phrase and appends its call to the main loop's queue (\<open>Completes k\<close>,
  once per phrase), and the main loop takes the oldest call off the queue and
  starts it (\<open>Main_loop\<close>). The source keeps no sequence number and no reorder
  buffer.

  A call that opens no dialog runs to its end before the next one starts. It
  asks the user nothing, so the answer handed to \<open>run_scheduled\<close> for it is
  immaterial. A call that opens a dialog stops there with the text area
  untouched: it is kept in \<open>dialogs\<close>, the newest first, and the event loop
  inside the dialog goes on serving the queue. What the command does once its
  dialog is answered is not part of this model: \<open>window\<close> is the state with
  every dialog in \<open>dialogs\<close> still open.
\<close>

datatype event = Completes nat | Main_loop

record pipeline =
  completed :: "nat list"
  after_queue :: "scheduled list"
  dialogs :: "scheduled list"
  window :: app

definition start :: "app \<Rightarrow> pipeline" where
  "start s = \<lparr>completed = [], after_queue = [], dialogs = [], window = s\<rparr>"

fun step :: "outcome list \<Rightarrow> pipeline \<Rightarrow> event \<Rightarrow> pipeline" where
  "step chunks p (Completes k) =
     (if k < length chunks \<and> k \<notin> set (completed p) then
        p\<lparr>completed := completed p @ [k],
          after_queue := after_queue p @ [process_audio (chunks ! k)]\<rparr>
      else p)"
| "step chunks p Main_loop =
     (case after_queue p of
        [] \<Rightarrow> p
      | call # rest \<Rightarrow>
          if opens_dialog call then
            p\<lparr>after_queue := rest, dialogs := call # dialogs p\<rparr>
          else
            p\<lparr>after_queue := rest, window := run_scheduled False call (window p)\<rparr>)"

definition run :: "outcome list \<Rightarrow> event list \<Rightarrow> pipeline \<Rightarrow> pipeline" where
  "run chunks events p = foldl (step chunks) p events"

text \<open>The main loop going on until its queue is empty: one turn for each call
  that waits.\<close>

definition drain :: "outcome list \<Rightarrow> pipeline \<Rightarrow> pipeline" where
  "drain chunks p = run chunks (replicate (length (after_queue p)) Main_loop) p"

text \<open>The state once every phrase of \<open>chunks\<close> has been transcribed, the workers
  finishing in the order \<open>order\<close>, and the main loop has served its queue.\<close>

definition dictate :: "outcome list \<Rightarrow> nat list \<Rightarrow> app \<Rightarrow> app" where
  "dictate chunks order s =
     window (drain chunks (run chunks (map Completes order) (start s)))"

text \<open>The phrases whose workers have finished, in the order they finished, as a
  list of events tells it.\<close>

definition completions :: "event list \<Rightarrow> nat list" where
  "completions events =
     concat (map (\<lambda>e. case e of Completes k \<Rightarrow> [k] | Main_loop \<Rightarrow> []) events)"

section \<open>The specification's normalisation\<close>

text \<open>
  The specification describes the normalisation of a recognised text as
  "lowercase, strip all punctuation, trim". \<open>normalize_spec\<close> follows these
  words, in this order; the source's own order is the one written in
  \<open>handle_recognized_text\<close>.
\<close>

definition normalize_spec :: "string \<Rightarrow> string" where
  "normalize_spec text = strip (translate_punctuation (lower text))"

section \<open>Example inputs\<close>

text \<open>Three phrases, in the order they are spoken.\<close>

definition hello_full_stop_world :: "outcome list" where
  "hello_full_stop_world =
     [Transcript ''hello'', Transcript ''full stop'', Transcript ''world'']"

text \<open>The command \<open>clear text\<close>, then a dictated word.\<close>

definition clear_text_hello :: "outcome list" where
  "clear_text_hello = [Transcript ''clear text'', Transcript ''hello'']"

text \<open>A text area holding \<open>testing one two\<close>.\<close>

definition testing_one_two :: app where
  "testing_one_two = init\<lparr>text_area := \<lparr>chars = ''testing one two'', tags = []\<rparr>\<rparr>"

text \<open>The state after dictating \<open>first line\<close>, \<open>new paragraph\<close>, \<open>second one\<close>.\<close>

definition two_paragraphs :: app where
  "two_paragraphs =
     handle_recognized_text True ''second one''
       (handle_recognized_text True ''new paragraph''
         (handle_recognized_text True ''first line'' init))"

section \<open>Undo\<close>

lemma update_status_fields [simp]:
  "text_area (update_status m s) = text_area s"
  "appended_chunks (update_status m s) = appended_chunks s"
  "capitalize_next (update_status m s) = capitalize_next s"
  "clipboard (update_status m s) = clipboard s"
  "status_label (update_status m s) = ''Status: '' @ m"
  by (simp_all add: update_status_def)

lemma update_status_twice:
  "update_status m (update_status m' s) = update_status m s"
  by (simp add: update_status_def)

lemma scratch_that_no_chunks:
  "appended_chunks s = [] \<Longrightarrow> scratch_that s = update_status ''Nothing to scratch.'' s"
  by (simp add: scratch_that_def)

lemma scratch_that_repeated_no_chunks:
  "appended_chunks s = [] \<Longrightarrow>
   (scratch_that ^^ Suc n) s = update_status ''Nothing to scratch.'' s"
proof (induction n)
  case 0
  then show ?case by (simp add: scratch_that_no_chunks)
next
  case (Suc n)
  have "(scratch_that ^^ Suc (Suc n)) s = scratch_that ((scratch_that ^^ Suc n) s)"
    by simp
  also have "\<dots> = scratch_that (update_status ''Nothing to scratch.'' s)"
    using Suc by simp
  also have "\<dots> = update_status ''Nothing to scratch.'' s"
    using Suc.prems by (simp add: scratch_that_no_chunks update_status_twice)
  finally show ?case .
qed

text \<open>
  C5. With no chunk on \<open>appended_chunks\<close>, undoing any number of times (at least
  once) changes nothing but the status label, which reads
  \<open>Status: Nothing to scratch.\<close>: the text area, its tags, the chunk list and the
  flag are as before.
\<close>

theorem undo_on_empty_stack:
  assumes "appended_chunks s = []" and "0 < n"
  shows "(scratch_that ^^ n) s = s\<lparr>status_label := ''Status: Nothing to scratch.''\<rparr>"
proof -
  obtain m where "n = Suc m" using assms(2) by (cases n) auto
  then show ?thesis
    using scratch_that_repeated_no_chunks [OF assms(1), of m]
    by (simp add: update_status_def)
qed

theorem undo_on_empty_stack_witness:
  "appended_chunks init = [] \<and> (0::nat) < 2 \<and>
   (scratch_that ^^ 2) init = init\<lparr>status_label := ''Status: Nothing to scratch.''\<rparr> \<and>
   chars (text_area ((scratch_that ^^ 2) init)) = []"
proof -
  have a: "appended_chunks init = []" by (simp add: init_def)
  have b: "(0::nat) < 2" by simp
  show ?thesis using undo_on_empty_stack [OF a b] a by (simp add: init_def)
qed

text \<open>
  C10. With a chunk on \<open>appended_chunks\<close>, undo removes exactly the newest entry
  of the list; and when the text area has no range for that entry's tag, the
  text area stays as it is and the status label reads
  \<open>Status: No tagged text found.\<close> The list gets shorter although nothing was
  deleted.
\<close>

theorem scratch_that_pops_one:
  assumes "appended_chunks s \<noteq> []"
  shows "appended_chunks (scratch_that s) = butlast (appended_chunks s) \<and>
         (tag_ranges (text_area s) (last (appended_chunks s)) = [] \<longrightarrow>
            text_area (scratch_that s) = text_area s \<and>
            status_label (scratch_that s) = ''Status: No tagged text found.'')"
  using assms by (simp add: scratch_that_def Let_def)

theorem scratch_that_pops_one_witness:
  "appended_chunks (append_text ''hello'' init) \<noteq> [] \<and>
   tag_ranges (text_area (append_text ''hello'' init))
     (last (appended_chunks (append_text ''hello'' init))) = [] \<and>
   appended_chunks (scratch_that (append_text ''hello'' init)) = [] \<and>
   chars (text_area (scratch_that (append_text ''hello'' init))) = ''Hello'' \<and>
   status_label (scratch_that (append_text ''hello'' init)) = ''Status: No tagged text found.''"
proof -
  have a: "appended_chunks (append_text ''hello'' init) \<noteq> []" by code_simp
  have b: "tag_ranges (text_area (append_text ''hello'' init))
     (last (appended_chunks (append_text ''hello'' init))) = []" by code_simp
  have c: "chars (text_area (append_text ''hello'' init)) = ''Hello''" by code_simp
  have d: "appended_chunks (append_text ''hello'' init) = [''chunk_0'']" by code_simp
  show ?thesis using scratch_that_pops_one [OF a] a b c d by simp
qed

text \<open>
  C3. The text area holding \<open>Hello\<close> from one dictated phrase, the command
  \<open>scratch that\<close> leaves \<open>Hello\<close> where it is: \<open>append_text\<close> never put the
  chunk's tag on the text it inserted, so undo finds no range to delete.
\<close>

theorem scratch_that_after_hello:
  "chars (text_area (handle_recognized_text True ''hello'' init)) = ''Hello'' \<and>
   chars (text_area (handle_recognized_text True ''scratch that''
                       (handle_recognized_text True ''hello'' init))) = ''Hello''"
  by code_simp

text \<open>
  C7. The text area holding \<open>One\<close>, appending \<open>two\<close> and undoing at once leaves
  \<open>One two\<close>, not \<open>One\<close>: the append is not taken back.
\<close>

theorem append_then_scratch_keeps_text:
  "chars (text_area (append_text ''one'' init)) = ''One'' \<and>
   chars (text_area (scratch_that (append_text ''two'' (append_text ''one'' init))))
     = ''One two''"
  by code_simp

section \<open>Deleting the last word\<close>

lemma split_Nil:
  assumes "dropWhile isspace t = []"
  shows "split t = []"
  by (subst split.simps) (simp only: assms list.case)

lemma split_Cons:
  assumes "dropWhile isspace t = c # cs"
  shows "split t = takeWhile (\<lambda>x. \<not> isspace x) (c # cs)
                   # split (dropWhile (\<lambda>x. \<not> isspace x) (c # cs))"
  by (subst split.simps) (simp only: assms list.case)

lemma split_words:
  "w \<in> set (split t) \<Longrightarrow> w \<noteq> [] \<and> (\<forall>c\<in>set w. \<not> isspace c)"
proof (induction t rule: split.induct)
  case (1 t)
  show ?case
  proof (cases "dropWhile isspace t")
    case Nil
    then have "split t = []" by (rule split_Nil)
    with "1.prems" show ?thesis by simp
  next
    case (Cons c cs)
    have nsp: "\<not> isspace c"
      using Cons hd_dropWhile [of isspace t] by auto
    have "w \<in> set (takeWhile (\<lambda>x. \<not> isspace x) (c # cs)
                     # split (dropWhile (\<lambda>x. \<not> isspace x) (c # cs)))"
      using "1.prems" unfolding split_Cons [OF Cons] .
    then consider "w = takeWhile (\<lambda>x. \<not> isspace x) (c # cs)"
      | "w \<in> set (split (dropWhile (\<lambda>x. \<not> isspace x) (c # cs)))"
      by auto
    then show ?thesis
    proof cases
      case 1
      have "w \<noteq> []" using 1 nsp by simp
      moreover have "\<forall>x\<in>set w. \<not> isspace x"
      proof
        fix x assume "x \<in> set w"
        then have "x \<in> set (takeWhile (\<lambda>x. \<not> isspace x) (c # cs))"
          unfolding 1 .
        then show "\<not> isspace x" by (rule set_takeWhileD [THEN conjunct2])
      qed
      ultimately show ?thesis by simp
    next
      case 2
      then show ?thesis by (rule "1.IH" [OF Cons])
    qed
  qed
qed

lemma split_skip_space: "isspace c \<Longrightarrow> split (c # t) = split t"
  by (subst split.simps, subst (2) split.simps) simp

lemma split_word:
  "w \<noteq> [] \<Longrightarrow> \<forall>c\<in>set w. \<not> isspace c \<Longrightarrow> split w = [w]"
proof -
  assume a: "w \<noteq> []" and b: "\<forall>c\<in>set w. \<not> isspace c"
  obtain c cs where w: "w = c # cs" using a by (cases w) auto
  have d: "dropWhile isspace w = c # cs" using w b by simp
  have t: "takeWhile (\<lambda>x. \<not> isspace x) w = w" using b by (simp add: takeWhile_eq_all_conv)
  have e: "dropWhile (\<lambda>x. \<not> isspace x) w = []" using b by simp
  show ?thesis using split_Cons [OF d] t e w by (simp add: split_Nil)
qed

lemma split_word_space:
  assumes "w \<noteq> []" and "\<forall>c\<in>set w. \<not> isspace c" and "isspace x"
  shows "split (w @ x # t) = w # split t"
proof -
  obtain c cs where w: "w = c # cs" using assms(1) by (cases w) auto
  have d: "dropWhile isspace (w @ x # t) = c # (cs @ x # t)" using w assms(2) by simp
  have tk: "takeWhile (\<lambda>x. \<not> isspace x) (w @ x # t) = w"
    using assms(2,3) by (simp add: takeWhile_append2)
  have dr: "dropWhile (\<lambda>x. \<not> isspace x) (w @ x # t) = x # t"
    using assms(2,3) by (simp add: dropWhile_append2)
  show ?thesis using split_Cons [OF d] tk dr w assms(3) by (simp add: split_skip_space)
qed

lemma isspace_space: "isspace CHR '' ''"
  by (simp add: isspace_def whitespace_def)

lemma isspace_newline: "isspace newline"
  by (simp add: isspace_def whitespace_def newline_def)

lemma split_join:
  "\<forall>w\<in>set ws. w \<noteq> [] \<and> (\<forall>c\<in>set w. \<not> isspace c) \<Longrightarrow> split (join '' '' ws) = ws"
proof (induction "'' ''" ws rule: join.induct)
  case 1
  show ?case by (simp add: split_Nil)
next
  case (2 w)
  then show ?case by (simp add: split_word)
next
  case (3 w v vs)
  then show ?case using split_word_space [of w "CHR '' ''" "join '' '' (v # vs)"]
    by (simp add: isspace_space)
qed

lemma join_chars:
  "c \<in> set (join sep ws) \<Longrightarrow> c \<in> set sep \<or> (\<exists>w\<in>set ws. c \<in> set w)"
  by (induction sep ws rule: join.induct) auto

lemma delete_last_word_chars:
  "chars (text_area s) \<noteq> [] \<Longrightarrow>
   chars (text_area (delete_last_word s)) = join '' '' (butlast (split (chars (text_area s))))"
  by (simp add: delete_last_word_def get_end_1c_def insert_END_def delete_all_def Let_def)

text \<open>
  C8. On a text area that is not empty, \<open>delete last word\<close> replaces the whole
  text by the words of the old text (split at whitespace) without the last
  one, joined by single spaces; the words of the new text are exactly those
  words, and the chunk list is not touched. \<open>testing one two\<close> becomes
  \<open>testing one\<close>.
\<close>

theorem delete_last_word_splits_drops_rejoins:
  assumes "chars (text_area s) \<noteq> []"
  shows "chars (text_area (delete_last_word s))
           = join '' '' (butlast (split (chars (text_area s)))) \<and>
         split (chars (text_area (delete_last_word s)))
           = butlast (split (chars (text_area s))) \<and>
         appended_chunks (delete_last_word s) = appended_chunks s"
proof -
  have "\<forall>w\<in>set (butlast (split (chars (text_area s)))). w \<noteq> [] \<and> (\<forall>c\<in>set w. \<not> isspace c)"
    using split_words in_set_butlastD by metis
  then have "split (join '' '' (butlast (split (chars (text_area s)))))
               = butlast (split (chars (text_area s)))"
    by (rule split_join)
  moreover have "appended_chunks (delete_last_word s) = appended_chunks s"
    by (simp add: delete_last_word_def Let_def)
  ultimately show ?thesis using delete_last_word_chars [OF assms] by simp
qed

theorem delete_last_word_splits_drops_rejoins_witness:
  "chars (text_area testing_one_two) \<noteq> [] \<and>
   chars (text_area (delete_last_word testing_one_two)) = ''testing one''"
proof -
  have a: "chars (text_area testing_one_two) \<noteq> []" by (simp add: testing_one_two_def)
  have b: "join '' '' (butlast (split (chars (text_area testing_one_two)))) = ''testing one''"
    by code_simp
  show ?thesis using delete_last_word_splits_drops_rejoins [OF a] a b by simp
qed

text \<open>
  C9. On a text area that is not empty, the text \<open>delete last word\<close> leaves
  holds no newline: the only whitespace in it is the space, and it is its own
  words joined by single spaces, so every run of whitespace of the old text,
  paragraph breaks included, has become one space.
\<close>

theorem delete_last_word_no_newline:
  assumes "chars (text_area s) \<noteq> []"
  shows "newline \<notin> set (chars (text_area (delete_last_word s))) \<and>
         (\<forall>c\<in>set (chars (text_area (delete_last_word s))). isspace c \<longrightarrow> c = CHR '' '') \<and>
         join '' '' (split (chars (text_area (delete_last_word s))))
           = chars (text_area (delete_last_word s))"
proof -
  let ?ws = "butlast (split (chars (text_area s)))"
  have r: "chars (text_area (delete_last_word s)) = join '' '' ?ws"
    using assms by (rule delete_last_word_chars)
  have ws: "\<forall>w\<in>set ?ws. w \<noteq> [] \<and> (\<forall>c\<in>set w. \<not> isspace c)"
    using split_words in_set_butlastD by metis
  have sp: "\<forall>c\<in>set (join '' '' ?ws). isspace c \<longrightarrow> c = CHR '' ''"
  proof (intro ballI impI)
    fix c assume "c \<in> set (join '' '' ?ws)" and "isspace c"
    then show "c = CHR '' ''" using join_chars [of c "'' ''" ?ws] ws by auto
  qed
  have "newline \<noteq> CHR '' ''" by (simp add: newline_def)
  then have nl: "newline \<notin> set (join '' '' ?ws)"
    using sp isspace_newline by blast
  have "join '' '' (split (join '' '' ?ws)) = join '' '' ?ws"
    using split_join [OF ws] by simp
  then show ?thesis using r sp nl by simp
qed

theorem delete_last_word_no_newline_witness:
  "chars (text_area two_paragraphs) \<noteq> [] \<and>
   chars (text_area two_paragraphs) = ''First line'' @ [newline, newline] @ ''second one'' \<and>
   chars (text_area (delete_last_word two_paragraphs)) = ''First line second'' \<and>
   newline \<notin> set (chars (text_area (delete_last_word two_paragraphs))) \<and>
   join '' '' (split (chars (text_area (delete_last_word two_paragraphs))))
     = ''First line second''"
proof -
  have b: "chars (text_area two_paragraphs)
             = ''First line'' @ [newline, newline] @ ''second one''"
    by code_simp
  have a: "chars (text_area two_paragraphs) \<noteq> []" unfolding b by simp
  have c: "chars (text_area (delete_last_word two_paragraphs)) = ''First line second''"
    by code_simp
  show ?thesis using delete_last_word_no_newline [OF a] a b c by simp
qed

section \<open>Capitalisation after a literal append\<close>

lemma append_text_capitalize_next:
  "capitalize_next (append_text t s) = (capitalize_next s \<and> t = [])"
  by (auto simp: append_text_def Let_def)

lemma append_text_chars:
  "chars (text_area (append_text t s)) =
     chars (text_area s)
     @ (if chars (text_area s) \<noteq> [] \<and> last (chars (text_area s)) \<noteq> newline
        then '' '' else [])
     @ (if (capitalize_next s \<or> chars (text_area s) = []
            \<or> last (chars (text_area s)) \<in> set ''.!?'') \<and> t \<noteq> []
        then upper [hd t] @ tl t else t)"
  by (simp add: append_text_def Let_def get_end_1c_def insert_END_def)

lemma append_text_not_empty:
  "t \<noteq> [] \<Longrightarrow> chars (text_area (append_text t s)) \<noteq> []"
  by (simp add: append_text_chars upper_def)

text \<open>
  C2, as the code has it. After every literal-text append (of a text that is
  not empty), the next literal text appended has its first character put in
  upper case if and only if the last character of the text area is one of
  \<open>.\<close>, \<open>!\<close>, \<open>?\<close>; otherwise it is appended as it is. It goes in after one
  space, or after none when the text area ends in a newline. \<open>append_text\<close>
  reads this from the text area when the next text arrives.
\<close>

theorem next_text_capitalized_by_last_character:
  assumes "t \<noteq> []" and "u \<noteq> []"
  shows "chars (text_area (append_text u (append_text t s))) =
           chars (text_area (append_text t s))
           @ (if last (chars (text_area (append_text t s))) \<noteq> newline then '' '' else [])
           @ (if last (chars (text_area (append_text t s))) \<in> set ''.!?''
              then upper [hd u] @ tl u else u)"
proof -
  have off: "\<not> capitalize_next (append_text t s)"
    using assms(1) by (simp add: append_text_capitalize_next)
  have ne: "chars (text_area (append_text t s)) \<noteq> []"
    using assms(1) by (rule append_text_not_empty)
  show ?thesis
    unfolding append_text_chars [of u "append_text t s"] using off ne assms(2) by simp
qed

theorem next_text_capitalized_by_last_character_witness:
  "''done.'' \<noteq> [] \<and> ''next'' \<noteq> [] \<and> ''hello'' \<noteq> [] \<and>
   chars (text_area (append_text ''done.'' init)) = ''Done.'' \<and>
   chars (text_area (append_text ''next'' (append_text ''done.'' init))) = ''Done. Next'' \<and>
   chars (text_area (append_text ''hello'' init)) = ''Hello'' \<and>
   chars (text_area (append_text ''next'' (append_text ''hello'' init))) = ''Hello next''"
proof -
  have a: "chars (text_area (append_text ''done.'' init)) = ''Done.''" by code_simp
  have b: "chars (text_area (append_text ''hello'' init)) = ''Hello''" by code_simp
  have u: "upper [hd ''next''] @ tl ''next'' = ''Next''" by code_simp
  have 1: "chars (text_area (append_text ''next'' (append_text ''done.'' init))) = ''Done. Next''"
    using next_text_capitalized_by_last_character [of "''done.''" "''next''" init] u
    unfolding a by (simp add: newline_def)
  have 2: "chars (text_area (append_text ''next'' (append_text ''hello'' init))) = ''Hello next''"
    using next_text_capitalized_by_last_character [of "''hello''" "''next''" init]
    unfolding b by (simp add: newline_def)
  show ?thesis using a b 1 2 by simp
qed

text \<open>
  C2 as stated fails: after appending \<open>done.\<close> to the empty text area the last
  character is a full stop and the flag is off.
\<close>

theorem capitalize_next_off_after_full_stop:
  "\<not> (capitalize_next (append_text ''done.'' init) \<longleftrightarrow>
       last (chars (text_area (append_text ''done.'' init))) \<in> set ''.!?'')"
  by code_simp

section \<open>Results that carry no text\<close>

text \<open>
  C6, as the code has it. A transcription that ends in an exception changes
  nothing but the status label, which shows the notice for that exception; a
  transcript that is blank once trimmed changes nothing at all, the status
  label included. The source keeps no sequence position: the main loop takes
  the call off its queue and the next one is at the head.
\<close>

theorem failed_or_blank_result:
  "run_scheduled askyesno (process_audio UnknownValueError) s
     = s\<lparr>status_label := ''Status: Audio not understood''\<rparr> \<and>
   run_scheduled askyesno (process_audio (RequestError e)) s
     = s\<lparr>status_label := ''Status: Request error: '' @ e\<rparr> \<and>
   run_scheduled askyesno (process_audio (OtherException e)) s
     = s\<lparr>status_label := ''Status: Error: '' @ e\<rparr> \<and>
   (strip t = [] \<longrightarrow> run_scheduled askyesno (process_audio (Transcript t)) s = s) \<and>
   (after_queue p = call # rest \<longrightarrow>
      after_queue (step chunks p Main_loop) = rest)"
  by (simp add: update_status_def handle_recognized_text_def)

theorem failed_or_blank_result_witness:
  "strip ''  '' = [] \<and>
   run_scheduled True (process_audio (Transcript ''  '')) init = init \<and>
   status_label (run_scheduled True (process_audio UnknownValueError) init)
     = ''Status: Audio not understood'' \<and>
   text_area (run_scheduled True (process_audio UnknownValueError) init) = text_area init \<and>
   after_queue (start init\<lparr>after_queue := [process_audio UnknownValueError,
                                            process_audio (Transcript ''hello'')]\<rparr>)
     = process_audio UnknownValueError # [process_audio (Transcript ''hello'')] \<and>
   after_queue (step [] (start init\<lparr>after_queue := [process_audio UnknownValueError,
                                            process_audio (Transcript ''hello'')]\<rparr>) Main_loop)
     = [process_audio (Transcript ''hello'')]"
proof -
  have a: "strip ''  '' = []" by code_simp
  have b: "after_queue (start init\<lparr>after_queue := [process_audio UnknownValueError,
                                            process_audio (Transcript ''hello'')]\<rparr>)
     = process_audio UnknownValueError # [process_audio (Transcript ''hello'')]"
    by (simp add: start_def)
  show ?thesis
    using failed_or_blank_result [where askyesno = True and s = init and t = "''  ''"
        and p = "start init\<lparr>after_queue := [process_audio UnknownValueError,
                                            process_audio (Transcript ''hello'')]\<rparr>"
        and call = "process_audio UnknownValueError"
        and rest = "[process_audio (Transcript ''hello'')]" and chunks = "[]"] a b
    by simp
qed

text \<open>
  C6 as stated fails: a blank transcript raises no status notice; the state,
  status label included, is what it was.
\<close>

theorem blank_transcript_is_silent:
  "strip ''  '' = [] \<and>
   run_scheduled True (process_audio (Transcript ''  '')) init = init \<and>
   status_label (run_scheduled True (process_audio (Transcript ''  '')) init) = ''Status: Idle''"
  by code_simp

section \<open>The order in which results are applied\<close>

lemma commands_answer_immaterial:
  "k \<noteq> ''new dictation'' \<Longrightarrow> k \<noteq> ''clear text'' \<Longrightarrow>
   map_of (commands a) k = map_of (commands b) k"
  by (simp add: commands_def)

lemma answer_immaterial:
  assumes "\<not> opens_dialog call"
  shows "run_scheduled a call s = run_scheduled b call s"
proof (cases call)
  case (Handle_recognized_text t)
  show ?thesis
  proof (cases "strip t = []")
    case True
    then show ?thesis
      using Handle_recognized_text by (simp add: handle_recognized_text_def)
  next
    case False
    then have "translate_punctuation (strip (lower t)) \<notin> set dialog_commands"
      using assms Handle_recognized_text by simp
    then have "map_of (commands a) (translate_punctuation (strip (lower t)))
               = map_of (commands b) (translate_punctuation (strip (lower t)))"
      by (intro commands_answer_immaterial) (auto simp: dialog_commands_def)
    then show ?thesis
      using Handle_recognized_text by (simp add: handle_recognized_text_def)
  qed
next
  case (Update_status m)
  then show ?thesis by simp
qed

lemma step_quiet:
  assumes d: "dialogs p = []"
      and q: "\<forall>c\<in>set (after_queue p). \<not> opens_dialog c"
      and f: "foldl (\<lambda>s c. run_scheduled y c s) (window p) (after_queue p) = foldl (\<lambda>s k. run_scheduled y (process_audio (chunks ! k)) s) s0 (completed p)"
      and e: "\<forall>k. e = Completes k \<longrightarrow> k < length chunks
                \<longrightarrow> \<not> opens_dialog (process_audio (chunks ! k))"
  shows "dialogs (step chunks p e) = [] \<and>
         (\<forall>c\<in>set (after_queue (step chunks p e)). \<not> opens_dialog c) \<and>
         foldl (\<lambda>s c. run_scheduled y c s) (window (step chunks p e)) (after_queue (step chunks p e))
           = foldl (\<lambda>s k. run_scheduled y (process_audio (chunks ! k)) s) s0 (completed (step chunks p e))"
proof (cases e)
  case (Completes k)
  then show ?thesis using d q f e by simp
next
  case Main_loop
  show ?thesis
  proof (cases "after_queue p")
    case Nil
    then show ?thesis using Main_loop d q f by simp
  next
    case (Cons c rest)
    then have nc: "\<not> opens_dialog c" using q by simp
    have "run_scheduled False c (window p) = run_scheduled y c (window p)"
      using nc by (rule answer_immaterial)
    then show ?thesis using Main_loop Cons nc d q f by simp
  qed
qed

lemma run_quiet:
  assumes d: "dialogs p = []"
      and q: "\<forall>c\<in>set (after_queue p). \<not> opens_dialog c"
      and f: "foldl (\<lambda>s c. run_scheduled y c s) (window p) (after_queue p) = foldl (\<lambda>s k. run_scheduled y (process_audio (chunks ! k)) s) s0 (completed p)"
      and h: "\<forall>k\<in>set (completions events).
                k < length chunks \<longrightarrow> \<not> opens_dialog (process_audio (chunks ! k))"
  shows "dialogs (run chunks events p) = [] \<and>
         (\<forall>c\<in>set (after_queue (run chunks events p)). \<not> opens_dialog c) \<and>
         foldl (\<lambda>s c. run_scheduled y c s) (window (run chunks events p)) (after_queue (run chunks events p))
           = foldl (\<lambda>s k. run_scheduled y (process_audio (chunks ! k)) s) s0 (completed (run chunks events p))"
  using assms
proof (induction events arbitrary: p)
  case Nil
  then show ?case by (simp add: run_def)
next
  case (Cons e events)
  have e: "\<forall>k. e = Completes k \<longrightarrow> k < length chunks
             \<longrightarrow> \<not> opens_dialog (process_audio (chunks ! k))"
    using Cons.prems(4) by (simp add: completions_def)
  have h': "\<forall>k\<in>set (completions events).
              k < length chunks \<longrightarrow> \<not> opens_dialog (process_audio (chunks ! k))"
    using Cons.prems(4) by (simp add: completions_def)
  note st = step_quiet [OF Cons.prems(1) Cons.prems(2) Cons.prems(3) e]
  have "dialogs (run chunks events (step chunks p e)) = [] \<and>
         (\<forall>c\<in>set (after_queue (run chunks events (step chunks p e))). \<not> opens_dialog c) \<and>
         foldl (\<lambda>s c. run_scheduled y c s) (window (run chunks events (step chunks p e)))
            (after_queue (run chunks events (step chunks p e)))
           = foldl (\<lambda>s k. run_scheduled y (process_audio (chunks ! k)) s) s0 (completed (run chunks events (step chunks p e)))"
    using st h' by (intro Cons.IH) simp_all
  then show ?case by (simp add: run_def)
qed

lemma drain_quiet:
  assumes "dialogs p = []"
      and "\<forall>c\<in>set (after_queue p). \<not> opens_dialog c"
  shows "drain chunks p
           = p\<lparr>after_queue := [], window := foldl (\<lambda>s c. run_scheduled y c s) (window p) (after_queue p)\<rparr>"
  using assms
proof (induction "after_queue p" arbitrary: p)
  case Nil
  then have "after_queue p = []" by simp
  then show ?case by (simp add: drain_def run_def)
next
  case (Cons c rest)
  have aq: "after_queue p = c # rest" using Cons.hyps(2) by simp
  have nc: "\<not> opens_dialog c" using Cons.prems(2) aq by simp
  have same: "run_scheduled False c (window p) = run_scheduled y c (window p)"
    using nc by (rule answer_immaterial)
  let ?p' = "p\<lparr>after_queue := rest, window := run_scheduled y c (window p)\<rparr>"
  have st: "step chunks p Main_loop = ?p'"
    using aq nc same by simp
  have "drain chunks p = drain chunks ?p'"
    using aq st by (simp add: drain_def run_def)
  also have "\<dots> = ?p'\<lparr>after_queue := [],
                         window := foldl (\<lambda>s c. run_scheduled y c s) (window ?p') (after_queue ?p')\<rparr>"
    using Cons.prems aq by (intro Cons.hyps(1)) simp_all
  finally show ?case using aq by simp
qed

lemma completed_run:
  assumes "distinct (completed p @ completions events)"
      and "\<forall>k\<in>set (completions events). k < length chunks"
  shows "completed (run chunks events p) = completed p @ completions events"
  using assms unfolding run_def
proof (induction events arbitrary: p)
  case Nil
  then show ?case by (simp add: completions_def)
next
  case (Cons e events)
  show ?case
  proof (cases e)
    case (Completes k)
    have c: "completions (e # events) = k # completions events"
      using Completes by (simp add: completions_def)
    have k: "k < length chunks" "k \<notin> set (completed p)"
      using Cons.prems c by auto
    have st: "completed (step chunks p e) = completed p @ [k]"
      using Completes k by simp
    have "completed (foldl (step chunks) (step chunks p e) events)
            = completed (step chunks p e) @ completions events"
      using Cons.prems c st by (intro Cons.IH) auto
    then show ?thesis using st c by simp
  next
    case Main_loop
    have c: "completions (e # events) = completions events"
      using Main_loop by (simp add: completions_def)
    have st: "completed (step chunks p e) = completed p"
      using Main_loop by (cases "after_queue p") simp_all
    have "completed (foldl (step chunks) (step chunks p e) events)
            = completed (step chunks p e) @ completions events"
      using Cons.prems c st by (intro Cons.IH) auto
    then show ?thesis using st c by simp
  qed
qed

text \<open>
  C1, as the code has it. For every list of chunks and every interleaving of
  workers finishing (each chunk at most once) with turns of the main loop, no
  finished chunk being a command that opens a dialog, the results are applied
  to the text area in the order the workers finished, whatever their sequence
  numbers: once the queue is drained, nothing waits, no dialog is open, and
  the state is that of running each finished chunk's call, one after the
  other, in completion order.
\<close>

theorem applied_in_completion_order:
  assumes "distinct (completions events)"
      and "\<forall>k\<in>set (completions events).
             k < length chunks \<and> \<not> opens_dialog (process_audio (chunks ! k))"
  shows "window (drain chunks (run chunks events (start s)))
           = foldl (\<lambda>s k. run_scheduled y (process_audio (chunks ! k)) s) s (completions events) \<and>
         after_queue (drain chunks (run chunks events (start s))) = [] \<and>
         dialogs (drain chunks (run chunks events (start s))) = []"
proof -
  let ?p = "run chunks events (start s)"
  have c: "completed ?p = completions events"
    using completed_run [of "start s" events chunks] assms by (simp add: start_def)
  have "dialogs ?p = [] \<and> (\<forall>c\<in>set (after_queue ?p). \<not> opens_dialog c) \<and>
        foldl (\<lambda>s c. run_scheduled y c s) (window ?p) (after_queue ?p) = foldl (\<lambda>s k. run_scheduled y (process_audio (chunks ! k)) s) s (completed ?p)"
    using assms(2) by (intro run_quiet) (simp_all add: start_def)
  then have d: "dialogs ?p = []"
    and q: "\<forall>c\<in>set (after_queue ?p). \<not> opens_dialog c"
    and f: "foldl (\<lambda>s c. run_scheduled y c s) (window ?p) (after_queue ?p) = foldl (\<lambda>s k. run_scheduled y (process_audio (chunks ! k)) s) s (completed ?p)"
    by simp_all
  show ?thesis
    unfolding drain_quiet [OF d q, of chunks y] using d f c by simp
qed

theorem applied_in_completion_order_witness:
  "completions [Completes 1, Completes 0, Main_loop, Completes 2] = [1, 0, 2] \<and>
   length hello_full_stop_world = 3 \<and>
   \<not> opens_dialog (process_audio (hello_full_stop_world ! 0)) \<and>
   \<not> opens_dialog (process_audio (hello_full_stop_world ! 1)) \<and>
   \<not> opens_dialog (process_audio (hello_full_stop_world ! 2)) \<and>
   window (drain hello_full_stop_world (run hello_full_stop_world
              [Completes 1, Completes 0, Main_loop, Completes 2] (start init)))
     = handle_recognized_text True ''world''
         (handle_recognized_text True ''hello''
           (handle_recognized_text True ''full stop'' init))"
proof -
  have c: "completions [Completes 1, Completes 0, Main_loop, Completes 2] = [1, 0, 2]"
    by (simp add: completions_def)
  have l: "length hello_full_stop_world = 3"
    by (simp add: hello_full_stop_world_def)
  have n0: "\<not> opens_dialog (process_audio (hello_full_stop_world ! 0))" by code_simp
  have n1: "\<not> opens_dialog (process_audio (hello_full_stop_world ! 1))" by code_simp
  have n2: "\<not> opens_dialog (process_audio (hello_full_stop_world ! 2))" by code_simp
  have a: "distinct (completions [Completes 1, Completes 0, Main_loop, Completes 2])"
    unfolding c by simp
  have b: "\<forall>k\<in>set (completions [Completes 1, Completes 0, Main_loop, Completes 2]).
      k < length hello_full_stop_world
      \<and> \<not> opens_dialog (process_audio (hello_full_stop_world ! k))"
    unfolding c l using n0 n1 n2 by simp
  have "window (drain hello_full_stop_world (run hello_full_stop_world
              [Completes 1, Completes 0, Main_loop, Completes 2] (start init)))
     = handle_recognized_text True ''world''
         (handle_recognized_text True ''hello''
           (handle_recognized_text True ''full stop'' init))"
    using applied_in_completion_order [OF a b, of init True]
    unfolding c by (simp add: hello_full_stop_world_def)
  then show ?thesis using c l n0 n1 n2 by simp
qed

text \<open>
  C1 as stated fails: with \<open>hello\<close>, \<open>full stop\<close>, \<open>world\<close> spoken in this order,
  the workers finishing in the order 1, 0, 2 leave another text than the
  workers finishing in sequence order.
\<close>

theorem completion_order_changes_text:
  "chars (text_area (dictate hello_full_stop_world [1, 0, 2] init)) = ''.  hello world'' \<and>
   chars (text_area (dictate hello_full_stop_world [0, 1, 2] init)) = ''Hello.  world''"
  by code_simp

text \<open>
  Where a command opens a dialog, the calls queued behind it are applied
  while the dialog is open: with \<open>clear text\<close> and \<open>hello\<close> finishing in this
  order, the queue once served, the text area holds \<open>Hello\<close> and the dialog of
  \<open>clear text\<close> still waits for its answer.
\<close>

lemma later_call_runs_inside_dialog:
  "chars (text_area (dictate clear_text_hello [0, 1] init)) = ''Hello'' \<and>
   dialogs (drain clear_text_hello
              (run clear_text_hello (map Completes [0, 1]) (start init)))
     = [Handle_recognized_text ''clear text'']"
  by code_simp

section \<open>Recognising commands\<close>

lemma lower_char_cases:
  "lower_char c = c \<or> (c \<in> set ascii_uppercase \<and> lower_char c \<in> set ascii_lowercase)"
  by (simp add: lower_char_def ascii_uppercase_def ascii_lowercase_def)

lemma letters_not_space:
  "c \<in> set ascii_uppercase \<Longrightarrow> \<not> isspace c"
  "c \<in> set ascii_lowercase \<Longrightarrow> \<not> isspace c"
  by (auto simp: ascii_uppercase_def ascii_lowercase_def isspace_def whitespace_def)

lemma letters_not_punctuation:
  "c \<in> set ascii_uppercase \<Longrightarrow> c \<notin> set punctuation"
  "c \<in> set ascii_lowercase \<Longrightarrow> c \<notin> set punctuation"
  by (auto simp: ascii_uppercase_def ascii_lowercase_def punctuation_def)

lemma punctuation_not_space: "c \<in> set punctuation \<Longrightarrow> \<not> isspace c"
  by (auto simp: punctuation_def isspace_def whitespace_def)

lemma isspace_lower_char: "isspace (lower_char c) = isspace c"
  using lower_char_cases [of c] letters_not_space [of c] letters_not_space [of "lower_char c"]
  by auto

lemma punctuation_lower_char: "c \<in> set punctuation \<Longrightarrow> lower_char c = c"
  using lower_char_cases [of c] letters_not_punctuation [of c] by auto

lemma lower_punctuation: "set t \<subseteq> set punctuation \<Longrightarrow> lower t = t"
  by (induction t) (simp_all add: lower_def punctuation_lower_char)

lemma lower_spaces: "\<forall>c\<in>set t. isspace c \<Longrightarrow> \<forall>c\<in>set (lower t). isspace c"
  by (simp add: lower_def isspace_lower_char)

lemma lower_append: "lower (a @ b) = lower a @ lower b"
  by (simp add: lower_def)

lemma strip_padded:
  assumes "x \<noteq> []" and "\<not> isspace (hd x)" and "\<not> isspace (last x)"
      and "\<forall>c\<in>set lead. isspace c" and "\<forall>c\<in>set trail. isspace c"
  shows "strip (lead @ x @ trail) = x"
proof -
  have "dropWhile isspace (lead @ x @ trail) = dropWhile isspace (x @ trail)"
    using assms(4) by (simp add: dropWhile_append2)
  also have "\<dots> = x @ trail"
    using assms(1,2) by (cases x) simp_all
  finally have a: "dropWhile isspace (lead @ x @ trail) = x @ trail" .
  have "dropWhile isspace (rev trail @ rev x) = dropWhile isspace (rev x)"
    by (rule dropWhile_append2) (use assms(5) in simp)
  also have "\<dots> = rev x"
    using assms(1,3) by (cases "rev x") (simp_all add: last_rev [symmetric] hd_rev)
  finally show ?thesis using a by (simp add: strip_def)
qed

lemma strip_blank_lower: "strip t = [] \<Longrightarrow> strip (lower t) = []"
proof -
  assume "strip t = []"
  then have "\<forall>c\<in>set (dropWhile isspace t). isspace c"
    by (simp add: strip_def dropWhile_eq_Nil_conv)
  moreover have "dropWhile isspace t \<noteq> [] \<Longrightarrow> \<not> isspace (hd (dropWhile isspace t))"
    by (rule hd_dropWhile)
  ultimately have "dropWhile isspace t = []"
    using hd_in_set by blast
  then have "\<forall>c\<in>set t. isspace c" by (simp add: dropWhile_eq_Nil_conv)
  then have "\<forall>c\<in>set (lower t). isspace c" by (rule lower_spaces)
  then have dl: "dropWhile isspace (lower t) = []" by (simp add: dropWhile_eq_Nil_conv)
  show ?thesis unfolding strip_def dl by simp
qed

lemma commands_keys:
  "(k, action) \<in> set (commands askyesno) \<Longrightarrow>
   k \<noteq> [] \<and> \<not> isspace (hd k) \<and> \<not> isspace (last k) \<and> translate_punctuation k = k"
  by (auto simp: commands_def isspace_def whitespace_def translate_punctuation_def punctuation_def)

lemma Nil_not_command: "map_of (commands askyesno) [] = None"
  by (simp add: commands_def)

lemma translate_punctuation_decorated:
  "set before \<subseteq> set punctuation \<Longrightarrow> set after \<subseteq> set punctuation \<Longrightarrow>
   translate_punctuation (before @ k @ after) = translate_punctuation k"
proof -
  assume a: "set before \<subseteq> set punctuation" and b: "set after \<subseteq> set punctuation"
  have "filter (\<lambda>c. c \<notin> set punctuation) before = []"
    using a by (auto simp: filter_empty_conv)
  moreover have "filter (\<lambda>c. c \<notin> set punctuation) after = []"
    using b by (auto simp: filter_empty_conv)
  ultimately show ?thesis by (simp add: translate_punctuation_def)
qed

lemma handle_recognized_text_command:
  assumes "map_of (commands askyesno) (translate_punctuation (strip (lower t))) = Some action"
  shows "handle_recognized_text askyesno t s = action s"
proof -
  have "strip t \<noteq> []"
  proof
    assume "strip t = []"
    then have "strip (lower t) = []" by (rule strip_blank_lower)
    then show False using assms by (simp add: translate_punctuation_def Nil_not_command)
  qed
  then show ?thesis using assms by (simp add: handle_recognized_text_def)
qed

lemma cleaned_decorated:
  assumes key: "(phrase, action) \<in> set (commands askyesno)"
      and variant: "lower variant = phrase"
      and before: "set before \<subseteq> set punctuation" and after: "set after \<subseteq> set punctuation"
      and lead: "\<forall>c\<in>set lead. isspace c" and trail: "\<forall>c\<in>set trail. isspace c"
  shows "translate_punctuation (strip (lower (lead @ before @ variant @ after @ trail))) = phrase"
proof -
  let ?x = "before @ phrase @ after"
  have k: "phrase \<noteq> []" "\<not> isspace (hd phrase)" "\<not> isspace (last phrase)"
          "translate_punctuation phrase = phrase"
    using commands_keys [OF key] by simp_all
  have low: "lower (lead @ before @ variant @ after @ trail) = lower lead @ ?x @ lower trail"
    using variant lower_punctuation [OF before] lower_punctuation [OF after]
    by (simp add: lower_append)
  have x: "?x \<noteq> []" using k(1) by simp
  have h: "\<not> isspace (hd ?x)"
    using k(1,2) before punctuation_not_space by (cases before) auto
  have l: "\<not> isspace (last ?x)"
  proof (cases "after = []")
    case True
    then show ?thesis using k(1,3) by simp
  next
    case False
    then have "last after \<in> set punctuation" using after last_in_set by blast
    then show ?thesis using False by (simp add: punctuation_not_space)
  qed
  have "strip (lower lead @ ?x @ lower trail) = ?x"
    using x h l lower_spaces [OF lead] lower_spaces [OF trail] by (rule strip_padded)
  then show ?thesis
    using low translate_punctuation_decorated [OF before after, of phrase] k(4) by simp
qed

text \<open>
  C4, as the code has it. A recognised text is normalised by lowercasing it,
  trimming it and then deleting its punctuation, in this order. When the
  result is a phrase of the command table, that phrase's action is run; when
  it is not (and the text is not blank), the text is appended as dictation.
  Hence every case variant of a command phrase, with punctuation characters
  directly before and after it and whitespace around the whole, runs the
  action of the phrase.
\<close>

theorem command_normalization:
  "(map_of (commands askyesno) (translate_punctuation (strip (lower t))) = Some action \<longrightarrow>
      handle_recognized_text askyesno t s = action s) \<and>
   (strip t \<noteq> [] \<and> map_of (commands askyesno) (translate_punctuation (strip (lower t))) = None \<longrightarrow>
      handle_recognized_text askyesno t s = append_text t s) \<and>
   (map_of (commands askyesno) phrase = Some action \<and> lower variant = phrase \<and>
    set before \<subseteq> set punctuation \<and> set after \<subseteq> set punctuation \<and>
    (\<forall>c\<in>set lead. isspace c) \<and> (\<forall>c\<in>set trail. isspace c) \<longrightarrow>
      handle_recognized_text askyesno (lead @ before @ variant @ after @ trail) s = action s)"
proof (intro conjI impI)
  assume "map_of (commands askyesno) (translate_punctuation (strip (lower t))) = Some action"
  then show "handle_recognized_text askyesno t s = action s"
    by (rule handle_recognized_text_command)
next
  assume "strip t \<noteq> [] \<and>
    map_of (commands askyesno) (translate_punctuation (strip (lower t))) = None"
  then show "handle_recognized_text askyesno t s = append_text t s"
    by (simp add: handle_recognized_text_def)
next
  assume a: "map_of (commands askyesno) phrase = Some action \<and> lower variant = phrase \<and>
    set before \<subseteq> set punctuation \<and> set after \<subseteq> set punctuation \<and>
    (\<forall>c\<in>set lead. isspace c) \<and> (\<forall>c\<in>set trail. isspace c)"
  then have key: "(phrase, action) \<in> set (commands askyesno)"
    by (auto dest: map_of_SomeD)
  have "translate_punctuation (strip (lower (lead @ before @ variant @ after @ trail))) = phrase"
    using key a by (intro cleaned_decorated) auto
  then show "handle_recognized_text askyesno (lead @ before @ variant @ after @ trail) s = action s"
    using a by (intro handle_recognized_text_command) simp
qed

theorem command_normalization_witness:
  "map_of (commands True) ''full stop'' = Some (insert_token ''. '') \<and>
   lower ''Full Stop'' = ''full stop'' \<and>
   CHR ''.'' \<in> set punctuation \<and> isspace CHR '' '' \<and>
   handle_recognized_text True '' Full Stop.'' init = insert_token ''. '' init \<and>
   handle_recognized_text True ''full stop'' init = insert_token ''. '' init \<and>
   strip ''full stop .'' \<noteq> [] \<and>
   map_of (commands True) (translate_punctuation (strip (lower ''full stop .''))) = None \<and>
   handle_recognized_text True ''full stop .'' init = append_text ''full stop .'' init"
proof -
  have a: "map_of (commands True) ''full stop'' = Some (insert_token ''. '')"
    by (simp add: commands_def)
  have b: "lower ''Full Stop'' = ''full stop''" by code_simp
  have c: "CHR ''.'' \<in> set punctuation" by (simp add: punctuation_def)
  have d: "isspace CHR '' ''" by (simp add: isspace_def whitespace_def)
  have e: "translate_punctuation (strip (lower ''full stop'')) = ''full stop''" by code_simp
  have f: "strip ''full stop .'' \<noteq> []" by code_simp
  have g: "translate_punctuation (strip (lower ''full stop .'')) = ''full stop ''" by code_simp
  have h: "map_of (commands True) ''full stop '' = None" by (simp add: commands_def)
  have 1: "handle_recognized_text True '' Full Stop.'' init = insert_token ''. '' init"
    using command_normalization [where askyesno = True and phrase = "''full stop''"
        and action = "insert_token ''. ''" and variant = "''Full Stop''" and before = "[]"
        and after = "''.''" and lead = "'' ''" and trail = "[]" and s = init] a b c d
    by simp
  have 2: "handle_recognized_text True ''full stop'' init = insert_token ''. '' init"
    using command_normalization [where askyesno = True and t = "''full stop''"
        and action = "insert_token ''. ''" and s = init] a e
    by simp
  have 3: "handle_recognized_text True ''full stop .'' init = append_text ''full stop .'' init"
    using command_normalization [where askyesno = True and t = "''full stop .''" and s = init]
      f g h
    by simp
  show ?thesis using a b c d f g h 1 2 3 by simp
qed

text \<open>
  C4 as stated fails: lowercased, stripped of punctuation and then trimmed,
  \<open>full stop .\<close> is the command phrase \<open>full stop\<close>; the code does not run the
  command but appends the text as dictation.
\<close>

theorem punctuation_after_space_not_command:
  "normalize_spec ''full stop .'' = ''full stop'' \<and>
   chars (text_area (handle_recognized_text True ''full stop'' init)) = ''. '' \<and>
   chars (text_area (handle_recognized_text True ''full stop .'' init)) = ''Full stop .''"
  by code_simp

end
